theory Spec2Isabelle
  imports Main "HOL-Library.Word" "HOL-Library.Sublist"
begin

unbundle bit_operations_syntax

section \<open>Data model\<close>

text \<open>
  Bytes are \<open>uint8_t\<close>, decode-table keys are \<open>uint16_t\<close>. Quantities of type
  \<open>size_t\<close> (buffer sizes, loop indices) are natural numbers: they count bytes of buffers
  held in memory. The \<open>int\<close> parameters of the formatter keep their 32-bit range, see
  \<open>int_mul\<close> below.
\<close>

type_synonym uint8_t = "8 word"
type_synonym uint16_t = "16 word"

text \<open>
  \<open>utf8_sequence_t\<close>: the array \<open>bytes[MAX_UTF8_BYTES]\<close> and the field \<open>length\<close>
  (named \<open>length_seq\<close> here).
\<close>

record utf8_sequence_t =
  bytes :: "uint8_t list"
  length_seq :: nat

text \<open>
  \<open>buffer_t\<close>: \<open>data\<close> holds the \<open>size\<close> bytes written so far, so the field \<open>size\<close>
  of the C struct is \<open>length (data buf)\<close>.
\<close>

record buffer_t =
  data :: "uint8_t list"
  capacity :: nat

text \<open>
  The ways the data path leaves the program: \<open>buffer_append\<close> calls \<open>exit(1)\<close> on a
  full buffer, and a division or remainder by zero traps.
\<close>

datatype error = BufferOverflow | DivisionByZero

text \<open>The three global tables, filled once by \<open>init_tables\<close>.\<close>

record tables =
  encode_table :: "utf8_sequence_t list"
  decode_table :: "uint16_t \<Rightarrow> uint8_t"
  decode_table_valid :: "uint16_t \<Rightarrow> bool"

section \<open>Buffers\<close>

text \<open>
  \<open>buffer_init\<close> allocates \<open>capacity\<close> bytes, 8192 when asked for none; \<open>malloc\<close> and
  \<open>calloc\<close> are taken to succeed. \<open>buffer_append\<close> never grows a buffer: it leaves the
  program when the bytes do not fit.
\<close>

definition INITIAL_BUFFER_SIZE :: nat where
  "INITIAL_BUFFER_SIZE = 8192"

definition buffer_init :: "nat \<Rightarrow> buffer_t" where
  "buffer_init cap =
     \<lparr>data = [], capacity = (if cap = 0 then INITIAL_BUFFER_SIZE else cap)\<rparr>"

definition buffer_append :: "buffer_t \<Rightarrow> uint8_t list \<Rightarrow> error + buffer_t" where
  "buffer_append buf bs =
     (if length (data buf) + length bs > capacity buf then Inl BufferOverflow
      else Inr (buf\<lparr>data := data buf @ bs\<rparr>))"

definition buffer_append_char :: "buffer_t \<Rightarrow> uint8_t \<Rightarrow> error + buffer_t" where
  "buffer_append_char buf c = buffer_append buf [c]"

section \<open>Table construction\<close>

text \<open>
  \<open>make_utf8\<close> receives a NUL-terminated character array; \<open>strlen\<close> counts the bytes
  before the first NUL, and \<open>memcpy\<close> copies them into the zeroed \<open>bytes\<close> array.
\<close>

definition strlen :: "uint8_t list \<Rightarrow> nat" where
  "strlen cs = length (takeWhile (\<lambda>c. c \<noteq> 0) cs)"

definition make_utf8 :: "uint8_t list \<Rightarrow> utf8_sequence_t" where
  "make_utf8 cs =
     \<lparr>bytes = take (strlen cs) cs @ replicate (4 - strlen cs) 0,
      length_seq = strlen cs\<rparr>"

definition utf8_hash :: "uint8_t list \<Rightarrow> nat \<Rightarrow> uint16_t" where
  "utf8_hash bs len =
     (if len = 1 then ucast (bs ! 0)
      else if len = 2 then
        ucast (push_bit 8 (ucast (bs ! 0) :: 32 word) OR ucast (bs ! 1))
      else if len = 3 then
        ucast (push_bit 12 (ucast (bs ! 0) AND (0x0F :: 32 word))
               OR push_bit 6 (ucast (bs ! 1) AND (0x3F :: 32 word))
               OR (ucast (bs ! 2) AND (0x3F :: 32 word)))
      else 0)"

text \<open>
  The array \<open>special_sequences\<close>: \<open>None\<close> is the NULL pointer, \<open>Some s\<close> a string literal
  with the bytes \<open>s\<close> (its terminating NUL is added where the literal is used). The
  updates are the assignments of the source, in the source's order.
\<close>

definition special_sequences :: "nat \<Rightarrow> uint8_t list option" where
  "special_sequences = Map.empty
     (0 \<mapsto> [0xe2, 0x88, 0x85],
      1 \<mapsto> [0xc2, 0xaf],
      2 \<mapsto> [0xc2, 0xab],
      3 \<mapsto> [0xc2, 0xbb],
      4 \<mapsto> [0xcf, 0x9e],
      5 \<mapsto> [0xc2, 0xbf],
      6 \<mapsto> [0xc2, 0xa1],
      7 \<mapsto> [0xc2, 0xaa],
      8 \<mapsto> [0xe2, 0x8c, 0xab],
      9 \<mapsto> [0xe2, 0x87, 0xa5],
      10 \<mapsto> [0xe2, 0x87, 0xa9],
      11 \<mapsto> [0xe2, 0x8a, 0xa7],
      12 \<mapsto> [0xc2, 0xa7],
      13 \<mapsto> [0xe2, 0x8f, 0x8e],
      14 \<mapsto> [0xc8, 0xaf],
      15 \<mapsto> [0xca, 0x98],
      16 \<mapsto> [0xc6, 0x94],
      17 \<mapsto> [0xc2, 0xb9],
      18 \<mapsto> [0xc2, 0xb2],
      19 \<mapsto> [0xc2, 0xba],
      20 \<mapsto> [0xc2, 0xb3],
      21 \<mapsto> [0xc2, 0xb5],
      22 \<mapsto> [0xc9, 0xa8],
      23 \<mapsto> [0xc2, 0xac],
      24 \<mapsto> [0xc2, 0xa9],
      25 \<mapsto> [0xc2, 0xa6],
      26 \<mapsto> [0xc6, 0xb5],
      27 \<mapsto> [0xe2, 0x8e, 0x8b],
      28 \<mapsto> [0xce, 0x9e],
      29 \<mapsto> [0xc7, 0x81],
      30 \<mapsto> [0xc7, 0x80],
      31 \<mapsto> [0xc2, 0xb6],
      32 \<mapsto> [0xe2, 0x90, 0xa3],
      33 \<mapsto> [0xef, 0xb9, 0x97],
      34 \<mapsto> [0xcb, 0xb5],
      35 \<mapsto> [0xe2, 0x99, 0xaf],
      36 \<mapsto> [0xef, 0xb9, 0xa9],
      37 \<mapsto> [0xef, 0xb9, 0xaa],
      38 \<mapsto> [0xef, 0xb9, 0xa0],
      39 \<mapsto> [0xca, 0xbc],
      40 \<mapsto> [0xe2, 0x9d, 0xa8],
      41 \<mapsto> [0xe2, 0x9d, 0xa9],
      42 \<mapsto> [0xef, 0xb9, 0xa1],
      43 \<mapsto> [0xef, 0xb9, 0xa2],
      45 \<mapsto> [0xef, 0xb9, 0xa3],
      47 \<mapsto> [0xe2, 0x81, 0x84],
      58 \<mapsto> [0xef, 0xb9, 0x95],
      59 \<mapsto> [0xef, 0xb9, 0x94],
      61 \<mapsto> [0xef, 0xb9, 0xa6],
      63 \<mapsto> [0xef, 0xb9, 0x96],
      64 \<mapsto> [0xef, 0xb9, 0xab],
      91 \<mapsto> [0xe2, 0x9f, 0xa6],
      92 \<mapsto> [0xe2, 0xa7, 0xb9],
      93 \<mapsto> [0xe2, 0x9f, 0xa7],
      96 \<mapsto> [0xcb, 0x8b],
      123 \<mapsto> [0xe2, 0x9d, 0xb4],
      124 \<mapsto> [0xe2, 0x88, 0xa3],
      125 \<mapsto> [0xe2, 0x9d, 0xb5],
      126 \<mapsto> [0xcb, 0x9c],
      127 \<mapsto> [0xe2, 0x8c, 0xa6],
      152 \<mapsto> [0xc5, 0x8c],
      184 \<mapsto> [0xc5, 0x8f])"

text \<open>
  One iteration of the loop "Build encoding table" assigns \<open>encode_table[i]\<close> in the
  branch taken for \<open>i\<close>. \<open>encode_entry i old\<close> is the entry after the iteration,
  \<open>old\<close> the entry before it (the zeroes of \<open>calloc\<close>), which stays when no branch is
  taken.
\<close>

definition encode_entry :: "nat \<Rightarrow> utf8_sequence_t \<Rightarrow> utf8_sequence_t" where
  "encode_entry i old =
     (if special_sequences i \<noteq> None then
        make_utf8 (the (special_sequences i) @ [0])
      else if i \<ge> 33 \<and> i \<le> 126 \<and> special_sequences i = None then
        make_utf8 [of_nat i, 0]
      else if i \<ge> 128 \<and> i < 192 \<and> i \<noteq> 152 \<and> i \<noteq> 184 then
        make_utf8 [0xc3, of_nat i, 0]
      else if i \<ge> 192 \<and> i \<noteq> 184 then
        make_utf8 [0xc4, of_nat (i - 192 + 128), 0]
      else old)"

definition build_encode_step :: "nat \<Rightarrow> utf8_sequence_t list \<Rightarrow> utf8_sequence_t list" where
  "build_encode_step i tab = tab[i := encode_entry i (tab ! i)]"

text \<open>One iteration of the loop "Build decode table".\<close>

definition build_decode_step ::
  "utf8_sequence_t list \<Rightarrow> nat \<Rightarrow> (uint16_t \<Rightarrow> uint8_t) \<times> (uint16_t \<Rightarrow> bool)
     \<Rightarrow> (uint16_t \<Rightarrow> uint8_t) \<times> (uint16_t \<Rightarrow> bool)" where
  "build_decode_step enc i dtv =
     (if length_seq (enc ! i) > 0 then
        (let hash = utf8_hash (bytes (enc ! i)) (length_seq (enc ! i))
         in ((fst dtv)(hash := of_nat i), (snd dtv)(hash := True)))
      else dtv)"

definition calloc_sequence :: utf8_sequence_t where
  "calloc_sequence = \<lparr>bytes = [0, 0, 0, 0], length_seq = 0\<rparr>"

definition build_encode_table :: "utf8_sequence_t list" where
  "build_encode_table = fold build_encode_step [0..<256] (replicate 256 calloc_sequence)"

definition init_tables :: tables where
  "init_tables =
     (let enc = build_encode_table;
          dtv = fold (build_decode_step enc) [0..<256] (\<lambda>_. 0, \<lambda>_. False)
      in \<lparr>encode_table = enc, decode_table = fst dtv, decode_table_valid = snd dtv\<rparr>)"

definition utf8_sequence_length :: "uint8_t \<Rightarrow> nat" where
  "utf8_sequence_length first_byte =
     (if first_byte < 0x80 then 1
      else if first_byte < 0xE0 then 2
      else if first_byte < 0xF0 then 3
      else 4)"

section \<open>Encoder\<close>

text \<open>
  The loop of \<open>encode_data\<close> over the input bytes; \<open>buffer_append\<close> copies the first
  \<open>seq.length\<close> bytes of \<open>seq.bytes\<close>.
\<close>

fun encode_loop :: "tables \<Rightarrow> uint8_t list \<Rightarrow> buffer_t \<Rightarrow> error + buffer_t" where
  "encode_loop T [] output = Inr output"
| "encode_loop T (b # rest) output =
     (let seq = encode_table T ! unat b in
      if length_seq seq > 0 then
        (case buffer_append output (take (length_seq seq) (bytes seq)) of
           Inl e \<Rightarrow> Inl e
         | Inr output' \<Rightarrow> encode_loop T rest output')
      else encode_loop T rest output)"

definition encode_data :: "tables \<Rightarrow> uint8_t list \<Rightarrow> error + buffer_t" where
  "encode_data T input = encode_loop T input (buffer_init (length input * 3))"

section \<open>Decoder\<close>

text \<open>
  The inner \<open>for\<close> loop of \<open>decode_data\<close>, started at \<open>len = seq_len\<close>: \<open>Some (len, b)\<close>
  when the lookup at length \<open>len\<close> hits and yields the byte \<open>b\<close> (\<open>matched = true\<close>),
  \<open>None\<close> when the loop ends without a hit. The pointer \<open>input + i\<close> is \<open>drop i input\<close>.
\<close>

function decode_try :: "tables \<Rightarrow> uint8_t list \<Rightarrow> nat \<Rightarrow> nat \<Rightarrow> (nat \<times> uint8_t) option" where
  "decode_try T input i len =
     (if len \<ge> 1 \<and> len \<le> 3 then
        (if i + len \<le> length input then
           (let hash = utf8_hash (drop i input) len in
            if decode_table_valid T hash then Some (len, decode_table T hash)
            else decode_try T input i (len - 1))
         else decode_try T input i (len - 1))
      else None)"
  by pat_completeness auto
termination
  by (relation "measure (\<lambda>(T, input, i, len). len)") auto

definition clamp_seq_len :: "uint8_t list \<Rightarrow> nat \<Rightarrow> nat \<Rightarrow> nat" where
  "clamp_seq_len input i seq_len =
     (if i + seq_len > length input then length input - i else seq_len)"

declare decode_try.simps [simp del]

lemma decode_try_len:
  "decode_try T input i len = Some (m, b) \<Longrightarrow>
   1 \<le> m \<and> m \<le> 3 \<and> m \<le> len \<and> i + m \<le> length input"
proof (induction T input i len rule: decode_try.induct)
  case (1 T input i len)
  have range: "len \<ge> 1 \<and> len \<le> 3"
    using "1.prems" by (subst (asm) decode_try.simps) (simp split: if_splits)
  show ?case
  proof (cases "i + len \<le> length input \<and> decode_table_valid T (utf8_hash (drop i input) len)")
    case True
    with range "1.prems" have "m = len"
      by (subst (asm) decode_try.simps) (simp add: Let_def)
    with range True show ?thesis by simp
  next
    case False
    with range "1.prems" have "decode_try T input i (len - 1) = Some (m, b)"
      by (subst (asm) decode_try.simps) (auto simp: Let_def split: if_splits)
    with range False "1.IH" have "1 \<le> m \<and> m \<le> 3 \<and> m \<le> len - 1 \<and> i + m \<le> length input"
      by (auto simp: Let_def)
    then show ?thesis by auto
  qed
qed

text \<open>The \<open>while\<close> loop of \<open>decode_data\<close>.\<close>

function decode_loop :: "tables \<Rightarrow> uint8_t list \<Rightarrow> nat \<Rightarrow> buffer_t \<Rightarrow> error + buffer_t" where
  "decode_loop T input i output =
     (if i < length input then
        (let first_byte = input ! i;
             seq_len = clamp_seq_len input i (utf8_sequence_length first_byte)
         in case decode_try T input i seq_len of
              Some (len, decoded_byte) \<Rightarrow>
                (case buffer_append_char output decoded_byte of
                   Inl e \<Rightarrow> Inl e
                 | Inr output' \<Rightarrow> decode_loop T input (i + len) output')
            | None \<Rightarrow> decode_loop T input (i + 1) output)
      else Inr output)"
  by pat_completeness auto
termination
proof (relation "measure (\<lambda>(T, input, i, output). length input - i)", goal_cases)
  case 1
  show ?case by simp
next
  case (2 T input i out first_byte seq_len)
  then show ?case by simp
next
  case (3 T input i out first_byte seq_len x2 len decoded_byte out')
  then have "1 \<le> len" using decode_try_len by metis
  with 3 show ?case by simp
qed

declare decode_loop.simps [simp del]

definition decode_data :: "tables \<Rightarrow> uint8_t list \<Rightarrow> error + buffer_t" where
  "decode_data T input = decode_loop T input 0 (buffer_init (length input))"

section \<open>Formatter\<close>

text \<open>
  \<open>group_size\<close> and \<open>groups_per_line\<close> are C \<open>int\<close>s. Their product is formed in
  \<open>int\<close>, where it wraps around at 32 bits (\<open>int_mul\<close>); an \<open>int\<close> that meets a
  \<open>size_t\<close> in a division or remainder is converted to \<open>size_t\<close> first (\<open>to_size_t\<close>,
  64 bits), and a zero divisor traps.
\<close>

definition INT_MAX :: int where
  "INT_MAX = 2 ^ 31 - 1"

definition int_mul :: "int \<Rightarrow> int \<Rightarrow> int" where
  "int_mul a b = (a * b + 2 ^ 31) mod 2 ^ 32 - 2 ^ 31"

definition to_size_t :: "int \<Rightarrow> nat" where
  "to_size_t x = nat (x mod 2 ^ 64)"

definition div_size_t :: "nat \<Rightarrow> nat \<Rightarrow> error + nat" where
  "div_size_t a b = (if b = 0 then Inl DivisionByZero else Inr (a div b))"

definition mod_size_t :: "nat \<Rightarrow> nat \<Rightarrow> error + nat" where
  "mod_size_t a b = (if b = 0 then Inl DivisionByZero else Inr (a mod b))"

text \<open>
  The inner \<open>for\<close> loop of \<open>format_output\<close> appends the bytes \<open>input[i + j]\<close> for
  \<open>j < char_len\<close> and \<open>i + j < size\<close>, one \<open>buffer_append_char\<close> each.
\<close>

fun append_chars :: "buffer_t \<Rightarrow> uint8_t list \<Rightarrow> error + buffer_t" where
  "append_chars buf [] = Inr buf"
| "append_chars buf (c # cs) =
     (case buffer_append_char buf c of
        Inl e \<Rightarrow> Inl e
      | Inr buf' \<Rightarrow> append_chars buf' cs)"

text \<open>
  The statement "Add spacing" after a character: a space when the character count is a
  multiple of the group size and input remains, then a newline when the group count is a
  multiple of the groups per line.
\<close>

definition add_spacing :: "nat \<Rightarrow> nat \<Rightarrow> nat \<Rightarrow> nat \<Rightarrow> nat \<Rightarrow> buffer_t \<Rightarrow> error + buffer_t" where
  "add_spacing size_in group_size groups_per_line char_count i buf =
     (case mod_size_t char_count group_size of
        Inl e \<Rightarrow> Inl e
      | Inr r \<Rightarrow>
          if r = 0 \<and> i < size_in then
            (case buffer_append_char buf 0x20 of
               Inl e \<Rightarrow> Inl e
             | Inr buf' \<Rightarrow>
                 (case div_size_t char_count group_size of
                    Inl e \<Rightarrow> Inl e
                  | Inr q \<Rightarrow>
                      (case mod_size_t q groups_per_line of
                         Inl e \<Rightarrow> Inl e
                       | Inr r' \<Rightarrow>
                           if r' = 0 \<and> i < size_in then buffer_append_char buf' 0x0A
                           else Inr buf')))
          else Inr buf)"

function format_loop ::
  "uint8_t list \<Rightarrow> nat \<Rightarrow> nat \<Rightarrow> nat \<Rightarrow> nat \<Rightarrow> buffer_t \<Rightarrow> error + buffer_t" where
  "format_loop input group_size groups_per_line char_count i buf =
     (if i < length input then
        (let char_len = utf8_sequence_length (input ! i) in
         case append_chars buf (take char_len (drop i input)) of
           Inl e \<Rightarrow> Inl e
         | Inr buf1 \<Rightarrow>
             (case add_spacing (length input) group_size groups_per_line
                     (char_count + 1) (i + char_len) buf1 of
                Inl e \<Rightarrow> Inl e
              | Inr buf2 \<Rightarrow>
                  format_loop input group_size groups_per_line
                    (char_count + 1) (i + char_len) buf2))
      else Inr buf)"
  by pat_completeness auto
termination
proof (relation "measure (\<lambda>(input, g, n, c, i, buf). length input - i)", goal_cases)
  case 1
  show ?case by simp
next
  case (2 input g n c i buf char_len)
  then have "0 < char_len" by (simp add: utf8_sequence_length_def)
  with 2 show ?case by simp
qed

declare format_loop.simps [simp del]

definition format_output :: "buffer_t \<Rightarrow> int \<Rightarrow> int \<Rightarrow> error + buffer_t" where
  "format_output input group_size groups_per_line =
     (let size_in = length (data input) in
      case div_size_t size_in (to_size_t group_size) of
        Inl e \<Rightarrow> Inl e
      | Inr per_group \<Rightarrow>
          (case div_size_t size_in (to_size_t (int_mul group_size groups_per_line)) of
             Inl e \<Rightarrow> Inl e
           | Inr per_line \<Rightarrow>
               format_loop (data input) (to_size_t group_size) (to_size_t groups_per_line)
                 0 0 (buffer_init (size_in + per_group + per_line))))"

section \<open>Sanitizer\<close>

fun clean_loop :: "uint8_t list \<Rightarrow> buffer_t \<Rightarrow> error + buffer_t" where
  "clean_loop [] buf = Inr buf"
| "clean_loop (c # cs) buf =
     (if c \<noteq> 0x20 \<and> c \<noteq> 0x09 \<and> c \<noteq> 0x0A \<and> c \<noteq> 0x0D then
        (case buffer_append_char buf c of
           Inl e \<Rightarrow> Inl e
         | Inr buf' \<Rightarrow> clean_loop cs buf')
      else clean_loop cs buf)"

definition clean_decode_input :: "buffer_t \<Rightarrow> error + buffer_t" where
  "clean_decode_input input = clean_loop (data input) (buffer_init (length (data input)))"

section \<open>Notions used in the statements and proofs\<close>

text \<open>The bytes of a table entry that \<open>encode_data\<close> emits.\<close>

definition seq_bytes :: "utf8_sequence_t \<Rightarrow> uint8_t list" where
  "seq_bytes s = take (length_seq s) (bytes s)"

definition sequence_of :: "tables \<Rightarrow> uint8_t \<Rightarrow> uint8_t list" where
  "sequence_of T b = seq_bytes (encode_table T ! unat b)"

definition hash_of :: "tables \<Rightarrow> uint8_t \<Rightarrow> uint16_t" where
  "hash_of T b =
     utf8_hash (bytes (encode_table T ! unat b)) (length_seq (encode_table T ! unat b))"

definition whitespace :: "uint8_t set" where
  "whitespace = {0x20, 0x09, 0x0A, 0x0D}"

text \<open>
  The value of \<open>utf8_hash\<close> on each of the 256 entries, in the order of the byte values;
  \<open>all_entries_ok\<close> below checks every number against the hash the program computes.
\<close>

definition entry_hashes :: "nat list" where
  "entry_hashes =
     [0x2205, 0xC2AF, 0xC2AB, 0xC2BB, 0xCF9E, 0xC2BF, 0xC2A1, 0xC2AA,
      0x232B, 0x21E5, 0x21E9, 0x22A7, 0xC2A7, 0x23CE, 0xC8AF, 0xCA98,
      0xC694, 0xC2B9, 0xC2B2, 0xC2BA, 0xC2B3, 0xC2B5, 0xC9A8, 0xC2AC,
      0xC2A9, 0xC2A6, 0xC6B5, 0x238B, 0xCE9E, 0xC781, 0xC780, 0xC2B6,
      0x2423, 0xFE57, 0xCBB5, 0x266F, 0xFE69, 0xFE6A, 0xFE60, 0xCABC,
      0x2768, 0x2769, 0xFE61, 0xFE62, 0x002C, 0xFE63, 0x002E, 0x2044,
      0x0030, 0x0031, 0x0032, 0x0033, 0x0034, 0x0035, 0x0036, 0x0037,
      0x0038, 0x0039, 0xFE55, 0xFE54, 0x003C, 0xFE66, 0x003E, 0xFE56,
      0xFE6B, 0x0041, 0x0042, 0x0043, 0x0044, 0x0045, 0x0046, 0x0047,
      0x0048, 0x0049, 0x004A, 0x004B, 0x004C, 0x004D, 0x004E, 0x004F,
      0x0050, 0x0051, 0x0052, 0x0053, 0x0054, 0x0055, 0x0056, 0x0057,
      0x0058, 0x0059, 0x005A, 0x27E6, 0x29F9, 0x27E7, 0x005E, 0x005F,
      0xCB8B, 0x0061, 0x0062, 0x0063, 0x0064, 0x0065, 0x0066, 0x0067,
      0x0068, 0x0069, 0x006A, 0x006B, 0x006C, 0x006D, 0x006E, 0x006F,
      0x0070, 0x0071, 0x0072, 0x0073, 0x0074, 0x0075, 0x0076, 0x0077,
      0x0078, 0x0079, 0x007A, 0x2774, 0x2223, 0x2775, 0xCB9C, 0x2326,
      0xC380, 0xC381, 0xC382, 0xC383, 0xC384, 0xC385, 0xC386, 0xC387,
      0xC388, 0xC389, 0xC38A, 0xC38B, 0xC38C, 0xC38D, 0xC38E, 0xC38F,
      0xC390, 0xC391, 0xC392, 0xC393, 0xC394, 0xC395, 0xC396, 0xC397,
      0xC58C, 0xC399, 0xC39A, 0xC39B, 0xC39C, 0xC39D, 0xC39E, 0xC39F,
      0xC3A0, 0xC3A1, 0xC3A2, 0xC3A3, 0xC3A4, 0xC3A5, 0xC3A6, 0xC3A7,
      0xC3A8, 0xC3A9, 0xC3AA, 0xC3AB, 0xC3AC, 0xC3AD, 0xC3AE, 0xC3AF,
      0xC3B0, 0xC3B1, 0xC3B2, 0xC3B3, 0xC3B4, 0xC3B5, 0xC3B6, 0xC3B7,
      0xC58F, 0xC3B9, 0xC3BA, 0xC3BB, 0xC3BC, 0xC3BD, 0xC3BE, 0xC3BF,
      0xC480, 0xC481, 0xC482, 0xC483, 0xC484, 0xC485, 0xC486, 0xC487,
      0xC488, 0xC489, 0xC48A, 0xC48B, 0xC48C, 0xC48D, 0xC48E, 0xC48F,
      0xC490, 0xC491, 0xC492, 0xC493, 0xC494, 0xC495, 0xC496, 0xC497,
      0xC498, 0xC499, 0xC49A, 0xC49B, 0xC49C, 0xC49D, 0xC49E, 0xC49F,
      0xC4A0, 0xC4A1, 0xC4A2, 0xC4A3, 0xC4A4, 0xC4A5, 0xC4A6, 0xC4A7,
      0xC4A8, 0xC4A9, 0xC4AA, 0xC4AB, 0xC4AC, 0xC4AD, 0xC4AE, 0xC4AF,
      0xC4B0, 0xC4B1, 0xC4B2, 0xC4B3, 0xC4B4, 0xC4B5, 0xC4B6, 0xC4B7,
      0xC4B8, 0xC4B9, 0xC4BA, 0xC4BB, 0xC4BC, 0xC4BD, 0xC4BE, 0xC4BF]"

definition entry_props :: "nat \<Rightarrow> utf8_sequence_t \<Rightarrow> bool" where
  "entry_props i s \<longleftrightarrow>
     1 \<le> length_seq s \<and> length_seq s \<le> 3 \<and> length (bytes s) = 4 \<and>
     utf8_sequence_length (bytes s ! 0) = length_seq s \<and>
     set (seq_bytes s) \<inter> whitespace = {} \<and>
     unat (utf8_hash (bytes s) (length_seq s)) = entry_hashes ! i"

definition entry_ok :: "nat \<Rightarrow> bool" where
  "entry_ok i = entry_props i (encode_entry i calloc_sequence)"

text \<open>
  The test made in the body of the decoder's inner loop at length \<open>len\<close>: the bytes are
  there and the decode table is marked valid at their hash.
\<close>

definition lookup_hit :: "tables \<Rightarrow> uint8_t list \<Rightarrow> nat \<Rightarrow> nat \<Rightarrow> bool" where
  "lookup_hit T input i len \<longleftrightarrow>
     i + len \<le> length input \<and> decode_table_valid T (utf8_hash (drop i input) len)"

text \<open>
  What the encoder, the decoder and the formatter need from the tables: every byte has an
  entry of one to three bytes whose leading byte announces its length, no byte of an entry
  is whitespace, and the decode table maps the hash of the entry back to the byte.
\<close>

definition table_ok :: "tables \<Rightarrow> bool" where
  "table_ok T \<longleftrightarrow>
     (\<forall>b. 1 \<le> length_seq (encode_table T ! unat b) \<and>
          length_seq (encode_table T ! unat b) \<le> 3 \<and>
          length (bytes (encode_table T ! unat b)) = 4 \<and>
          utf8_sequence_length (bytes (encode_table T ! unat b) ! 0)
            = length_seq (encode_table T ! unat b) \<and>
          set (sequence_of T b) \<inter> whitespace = {} \<and>
          decode_table_valid T (hash_of T b) \<and>
          decode_table T (hash_of T b) = b)"

definition encode_bytes :: "tables \<Rightarrow> uint8_t list \<Rightarrow> uint8_t list" where
  "encode_bytes T B = concat (map (sequence_of T) B)"

text \<open>
  What \<open>format_output\<close> writes for encoder output: after the \<open>c\<close>-th unit a space when
  \<open>c\<close> is a multiple of the group size and input remains, followed by a newline when the
  number of groups is a multiple of the groups per line; \<open>formatted_units\<close> is the
  sequence of every byte of \<open>B\<close>, each followed by its separator, \<open>c\<close> units having
  been written before.
\<close>

definition separator :: "nat \<Rightarrow> nat \<Rightarrow> nat \<Rightarrow> bool \<Rightarrow> uint8_t list" where
  "separator g n c remaining =
     (if c mod g = 0 \<and> remaining then
        0x20 # (if (c div g) mod n = 0 then [0x0A] else [])
      else [])"

fun formatted_units :: "tables \<Rightarrow> nat \<Rightarrow> nat \<Rightarrow> nat \<Rightarrow> uint8_t list \<Rightarrow> uint8_t list" where
  "formatted_units T g n c [] = []"
| "formatted_units T g n c (b # B) =
     sequence_of T b @ separator g n (Suc c) (B \<noteq> []) @ formatted_units T g n (Suc c) B"

section \<open>The tables built by \<open>init_tables\<close>\<close>

lemma strlen_simps:
  "strlen [] = 0"
  "strlen (c # cs) = (if c \<noteq> 0 then Suc (strlen cs) else 0)"
  by (simp_all add: strlen_def)

lemma make_utf8_1: "a \<noteq> 0 \<Longrightarrow> make_utf8 [a, 0] = \<lparr>bytes = [a, 0, 0, 0], length_seq = 1\<rparr>"
  by (simp add: make_utf8_def strlen_simps numeral_3_eq_3)

lemma make_utf8_2:
  "a \<noteq> 0 \<Longrightarrow> b \<noteq> 0 \<Longrightarrow> make_utf8 [a, b, 0] = \<lparr>bytes = [a, b, 0, 0], length_seq = 2\<rparr>"
  by (simp add: make_utf8_def strlen_simps numeral_2_eq_2)

lemma make_utf8_3:
  "a \<noteq> 0 \<Longrightarrow> b \<noteq> 0 \<Longrightarrow> c \<noteq> 0 \<Longrightarrow>
   make_utf8 [a, b, c, 0] = \<lparr>bytes = [a, b, c, 0], length_seq = 3\<rparr>"
  by (simp add: make_utf8_def strlen_simps numeral_3_eq_3)

lemma encode_entry_case:
  "encode_entry i old =
     (case special_sequences i of
        Some cs \<Rightarrow> make_utf8 (cs @ [0])
      | None \<Rightarrow>
          if i \<ge> 33 \<and> i \<le> 126 then make_utf8 [of_nat i, 0]
          else if i \<ge> 128 \<and> i < 192 \<and> i \<noteq> 152 \<and> i \<noteq> 184 then make_utf8 [0xc3, of_nat i, 0]
          else if i \<ge> 192 \<and> i \<noteq> 184 then make_utf8 [0xc4, of_nat (i - 192 + 128), 0]
          else old)"
  by (simp add: encode_entry_def split: option.split)

lemma encoding_examples:
  "encode_entry 0x00 calloc_sequence = \<lparr>bytes = [0xE2, 0x88, 0x85, 0], length_seq = 3\<rparr>"
  "encode_entry 0x41 calloc_sequence = \<lparr>bytes = [0x41, 0, 0, 0], length_seq = 1\<rparr>"
  "encode_entry 0x80 calloc_sequence = \<lparr>bytes = [0xC3, 0x80, 0, 0], length_seq = 2\<rparr>"
  "encode_entry 0xC0 calloc_sequence = \<lparr>bytes = [0xC4, 0x80, 0, 0], length_seq = 2\<rparr>"
  by (simp_all add: encode_entry_case special_sequences_def make_utf8_1 make_utf8_2 make_utf8_3)

lemma upt_256: "[0..<256] = 0 # 1 # [2..<256]"
proof -
  have "[0..<256] = 0 # [Suc 0..<256]" by (rule upt_conv_Cons) simp
  moreover have "[Suc 0..<256] = Suc 0 # [Suc (Suc 0)..<256]" by (rule upt_conv_Cons) simp
  moreover have "Suc (Suc 0) = 2" by simp
  ultimately show ?thesis by simp
qed

lemma all_entries_ok: "list_all entry_ok [0..<256]"
  apply (simp add: upt_256)
  apply (intro conjI)
  apply (simp_all add: entry_ok_def encode_entry_case special_sequences_def
      make_utf8_1 make_utf8_2 make_utf8_3)
  apply (simp_all add: entry_props_def utf8_sequence_length_def utf8_hash_def seq_bytes_def
      whitespace_def entry_hashes_def)
  done

lemma distinct_entry_hashes: "distinct entry_hashes"
  unfolding entry_hashes_def by simp

lemma length_entry_hashes: "length entry_hashes = 256"
  unfolding entry_hashes_def by simp

lemma entry_ok_256: "i < 256 \<Longrightarrow> entry_ok i"
  using all_entries_ok by (simp add: list_all_iff)

lemma length_build_encode_step [simp]: "length (build_encode_step i tab) = length tab"
  by (simp add: build_encode_step_def)

lemma length_fold_build_encode [simp]:
  "length (fold build_encode_step is tab) = length tab"
  by (induction "is" arbitrary: tab) simp_all

lemma build_encode_step_nth:
  "i < length tab \<Longrightarrow>
   build_encode_step i tab ! j = (if j = i then encode_entry i (tab ! i) else tab ! j)"
  by (simp add: build_encode_step_def)

lemma fold_build_encode_nth:
  "n \<le> length tab \<Longrightarrow>
   fold build_encode_step [0..<n] tab ! j = (if j < n then encode_entry j (tab ! j) else tab ! j)"
proof (induction n arbitrary: j)
  case 0
  show ?case by simp
next
  case (Suc n)
  then have IH: "fold build_encode_step [0..<n] tab ! k
                 = (if k < n then encode_entry k (tab ! k) else tab ! k)" for k
    by simp
  have "n < length (fold build_encode_step [0..<n] tab)"
    using Suc.prems by simp
  then show ?case
    by (simp add: build_encode_step_nth IH)
qed

lemma build_encode_table_nth:
  "i < 256 \<Longrightarrow> build_encode_table ! i = encode_entry i calloc_sequence"
  by (simp add: build_encode_table_def fold_build_encode_nth)

lemma encode_table_init: "encode_table init_tables = build_encode_table"
  by (simp add: init_tables_def Let_def)

lemma unat_byte_less: "unat (b :: uint8_t) < 256"
  using unsigned_less [of b, where ?'a = nat] by simp

lemma fold_build_decode:
  assumes nonempty: "\<forall>i<n. length_seq (enc ! i) > 0"
    and inj: "inj_on (\<lambda>i. utf8_hash (bytes (enc ! i)) (length_seq (enc ! i))) {..<n}"
    and i: "i < n"
  shows "snd (fold (build_decode_step enc) [0..<n] init)
           (utf8_hash (bytes (enc ! i)) (length_seq (enc ! i))) \<and>
         fst (fold (build_decode_step enc) [0..<n] init)
           (utf8_hash (bytes (enc ! i)) (length_seq (enc ! i))) = of_nat i"
  using assms
proof (induction n arbitrary: i)
  case 0
  then show ?case by simp
next
  case (Suc n)
  let ?h = "\<lambda>i. utf8_hash (bytes (enc ! i)) (length_seq (enc ! i))"
  let ?R = "fold (build_decode_step enc) [0..<n] init"
  have step: "fold (build_decode_step enc) [0..<Suc n] init
              = ((fst ?R)(?h n := of_nat n), (snd ?R)(?h n := True))"
    using Suc.prems(1) by (simp add: build_decode_step_def Let_def)
  show ?case
  proof (cases "i = n")
    case True
    then show ?thesis by (simp only: step) simp
  next
    case False
    with Suc.prems have lt: "i < n" by simp
    have "inj_on ?h {..<n}"
      using Suc.prems(2) by (rule inj_on_subset) auto
    with Suc.IH [of i] Suc.prems(1) lt
    have IH: "snd ?R (?h i) \<and> fst ?R (?h i) = of_nat i" by simp
    have "?h i \<noteq> ?h n"
      using Suc.prems(2) lt by (auto simp: inj_on_def)
    with IH show ?thesis by (simp only: step) simp
  qed
qed

lemma entry_hash_inj:
  "inj_on (\<lambda>i. utf8_hash (bytes (build_encode_table ! i)) (length_seq (build_encode_table ! i)))
     {..<256}"
proof (rule inj_onI)
  fix i j
  assume i: "i \<in> {..<256::nat}" and j: "j \<in> {..<256::nat}"
    and eq: "utf8_hash (bytes (build_encode_table ! i)) (length_seq (build_encode_table ! i))
       = utf8_hash (bytes (build_encode_table ! j)) (length_seq (build_encode_table ! j))"
  from i j have "entry_ok i" "entry_ok j" by (simp_all add: entry_ok_256)
  with i j eq have "entry_hashes ! i = entry_hashes ! j"
    by (simp add: entry_ok_def entry_props_def build_encode_table_nth [symmetric])
  with i j show "i = j"
    using distinct_entry_hashes length_entry_hashes by (simp add: nth_eq_iff_index_eq)
qed

lemma init_tables_ok: "table_ok init_tables"
  unfolding table_ok_def
proof
  fix b :: uint8_t
  let ?i = "unat b"
  have lt: "?i < 256" by (rule unat_byte_less)
  then have ok: "entry_props ?i (build_encode_table ! ?i)"
    using entry_ok_256 [of ?i] by (simp add: entry_ok_def build_encode_table_nth)
  have nonempty: "\<forall>i<256. length_seq (build_encode_table ! i) > 0"
  proof (intro allI impI)
    fix i :: nat
    assume "i < 256"
    then show "length_seq (build_encode_table ! i) > 0"
      using entry_ok_256 [of i] by (simp add: entry_ok_def entry_props_def build_encode_table_nth)
  qed
  have hit: "decode_table_valid init_tables (hash_of init_tables b) \<and>
             decode_table init_tables (hash_of init_tables b) = b"
    using fold_build_decode [OF nonempty entry_hash_inj lt, of "(\<lambda>_. 0, \<lambda>_. False)"]
    by (simp add: init_tables_def Let_def hash_of_def)
  from ok hit show "1 \<le> length_seq (encode_table init_tables ! unat b) \<and>
          length_seq (encode_table init_tables ! unat b) \<le> 3 \<and>
          length (bytes (encode_table init_tables ! unat b)) = 4 \<and>
          utf8_sequence_length (bytes (encode_table init_tables ! unat b) ! 0)
            = length_seq (encode_table init_tables ! unat b) \<and>
          set (sequence_of init_tables b) \<inter> whitespace = {} \<and>
          decode_table_valid init_tables (hash_of init_tables b) \<and>
          decode_table init_tables (hash_of init_tables b) = b"
    by (simp add: entry_props_def encode_table_init sequence_of_def)
qed

section \<open>Encoding and decoding\<close>

lemma buffer_append_eq:
  "buffer_append buf bs =
     (if length (data buf) + length bs \<le> capacity buf then Inr (buf\<lparr>data := data buf @ bs\<rparr>)
      else Inl BufferOverflow)"
  by (simp add: buffer_append_def)

lemma buffer_append_char_eq:
  "buffer_append_char buf c =
     (if length (data buf) + 1 \<le> capacity buf then Inr (buf\<lparr>data := data buf @ [c]\<rparr>)
      else Inl BufferOverflow)"
  by (simp add: buffer_append_char_def buffer_append_eq)

lemma table_okD:
  assumes "table_ok T"
  shows "1 \<le> length_seq (encode_table T ! unat b)"
    and "length_seq (encode_table T ! unat b) \<le> 3"
    and "length (bytes (encode_table T ! unat b)) = 4"
    and "utf8_sequence_length (bytes (encode_table T ! unat b) ! 0)
          = length_seq (encode_table T ! unat b)"
    and "set (sequence_of T b) \<inter> whitespace = {}"
    and "decode_table_valid T (hash_of T b)"
    and "decode_table T (hash_of T b) = b"
  using assms unfolding table_ok_def by blast+

lemma length_sequence_of:
  "table_ok T \<Longrightarrow> length (sequence_of T b) = length_seq (encode_table T ! unat b)"
  using table_okD(2,3) [of T b] by (simp add: sequence_of_def seq_bytes_def)

lemma sequence_of_bounds:
  "table_ok T \<Longrightarrow> 1 \<le> length (sequence_of T b) \<and> length (sequence_of T b) \<le> 3"
  using table_okD(1,2) [of T b] by (simp add: length_sequence_of)

lemma sequence_of_lead:
  assumes "table_ok T"
  shows "utf8_sequence_length (sequence_of T b ! 0) = length (sequence_of T b)"
proof -
  have "0 < length_seq (encode_table T ! unat b)"
    using table_okD(1) [OF assms, of b] by simp
  then have "sequence_of T b ! 0 = bytes (encode_table T ! unat b) ! 0"
    by (simp add: sequence_of_def seq_bytes_def)
  with assms table_okD(4) [OF assms, of b] show ?thesis
    by (simp add: length_sequence_of)
qed

lemma utf8_hash_append:
  "len \<le> length xs \<Longrightarrow> utf8_hash (xs @ ys) len = utf8_hash xs len"
  by (auto simp: utf8_hash_def nth_append)

lemma utf8_hash_take:
  "utf8_hash (take len bs) len = utf8_hash bs len"
  by (simp add: utf8_hash_def)

lemma hash_of_sequence:
  "table_ok T \<Longrightarrow> utf8_hash (sequence_of T b @ ys) (length (sequence_of T b)) = hash_of T b"
proof -
  assume ok: "table_ok T"
  let ?s = "encode_table T ! unat b"
  have "utf8_hash (sequence_of T b @ ys) (length (sequence_of T b))
        = utf8_hash (sequence_of T b) (length (sequence_of T b))"
    by (simp add: utf8_hash_append)
  also have "\<dots> = utf8_hash (take (length_seq ?s) (bytes ?s)) (length_seq ?s)"
    using length_sequence_of [OF ok, of b] by (simp add: sequence_of_def seq_bytes_def)
  also have "\<dots> = hash_of T b"
    by (simp add: utf8_hash_take hash_of_def)
  finally show ?thesis .
qed

lemma encode_loop_ok:
  assumes "table_ok T"
  shows "length (data buf) + 3 * length B \<le> capacity buf \<Longrightarrow>
         encode_loop T B buf = Inr (buf\<lparr>data := data buf @ encode_bytes T B\<rparr>)"
proof (induction B arbitrary: buf)
  case Nil
  show ?case by (simp add: encode_bytes_def)
next
  case (Cons b B)
  have len: "1 \<le> length (sequence_of T b) \<and> length (sequence_of T b) \<le> 3"
    using assms by (rule sequence_of_bounds)
  have pos: "0 < length_seq (encode_table T ! unat b)"
    using len assms by (simp add: length_sequence_of)
  have app: "buffer_append buf (sequence_of T b) = Inr (buf\<lparr>data := data buf @ sequence_of T b\<rparr>)"
    using len Cons.prems by (simp add: buffer_append_eq)
  have "encode_loop T B (buf\<lparr>data := data buf @ sequence_of T b\<rparr>)
        = Inr (buf\<lparr>data := (data buf @ sequence_of T b) @ encode_bytes T B\<rparr>)"
    using Cons.IH [of "buf\<lparr>data := data buf @ sequence_of T b\<rparr>"] len Cons.prems by simp
  with pos app show ?case
    by (simp add: Let_def encode_bytes_def sequence_of_def [symmetric] seq_bytes_def [symmetric])
qed

lemma encode_data_ok:
  assumes "table_ok T"
  shows "encode_data T B = Inr \<lparr>data = encode_bytes T B, capacity = capacity (buffer_init (length B * 3))\<rparr>"
proof -
  have "length (data (buffer_init (length B * 3))) + 3 * length B \<le> capacity (buffer_init (length B * 3))"
    by (simp add: buffer_init_def)
  from encode_loop_ok [OF assms this] show ?thesis
    by (simp add: encode_data_def buffer_init_def)
qed

lemma decode_try_hit:
  "1 \<le> len \<Longrightarrow> len \<le> 3 \<Longrightarrow> i + len \<le> length input \<Longrightarrow>
   decode_table_valid T (utf8_hash (drop i input) len) \<Longrightarrow>
   decode_try T input i len = Some (len, decode_table T (utf8_hash (drop i input) len))"
  by (subst decode_try.simps) (simp add: Let_def)

lemma decode_loop_encoded:
  assumes "table_ok T"
  shows "length (data buf) + length B \<le> capacity buf \<Longrightarrow>
         decode_loop T (pre @ encode_bytes T B) (length pre) buf = Inr (buf\<lparr>data := data buf @ B\<rparr>)"
proof (induction B arbitrary: pre buf)
  case Nil
  show ?case by (subst decode_loop.simps) (simp add: encode_bytes_def)
next
  case (Cons b B)
  let ?sq = "sequence_of T b"
  let ?input = "pre @ encode_bytes T (b # B)"
  let ?L = "length ?sq"
  have input: "?input = pre @ ?sq @ encode_bytes T B"
    by (simp add: encode_bytes_def)
  have len: "1 \<le> ?L \<and> ?L \<le> 3" using assms by (rule sequence_of_bounds)
  from len have nonempty: "?sq \<noteq> []" by auto
  have first: "?input ! length pre = ?sq ! 0"
    using nonempty by (simp add: input nth_append)
  have lead: "utf8_sequence_length (?sq ! 0) = ?L" using assms by (rule sequence_of_lead)
  have clamp: "clamp_seq_len ?input (length pre) ?L = ?L"
    by (simp add: clamp_seq_len_def input)
  have hash: "utf8_hash (drop (length pre) ?input) ?L = hash_of T b"
    using assms by (simp add: input hash_of_sequence)
  have hit: "decode_table_valid T (hash_of T b) \<and> decode_table T (hash_of T b) = b"
    using table_okD(6,7) [OF assms, of b] by simp
  have tried: "decode_try T ?input (length pre) ?L = Some (?L, b)"
    using decode_try_hit [of ?L "length pre" ?input T] len hit hash by (simp add: input)
  have app: "buffer_append_char buf b = Inr (buf\<lparr>data := data buf @ [b]\<rparr>)"
    using Cons.prems by (simp add: buffer_append_char_eq)
  have rest: "decode_loop T ((pre @ ?sq) @ encode_bytes T B) (length (pre @ ?sq))
                (buf\<lparr>data := data buf @ [b]\<rparr>)
              = Inr (buf\<lparr>data := (data buf @ [b]) @ B\<rparr>)"
    using Cons.IH [of "buf\<lparr>data := data buf @ [b]\<rparr>" "pre @ ?sq"] Cons.prems by simp
  have lt: "length pre < length ?input" using nonempty by (simp add: input)
  show ?case
    apply (subst decode_loop.simps)
    using lt first lead clamp tried app rest
    apply (simp add: Let_def input)
    done
qed

lemma length_encode_bytes:
  assumes "table_ok T"
  shows "length B \<le> length (encode_bytes T B) \<and> length (encode_bytes T B) \<le> 3 * length B"
proof (induction B)
  case Nil
  show ?case by (simp add: encode_bytes_def)
next
  case (Cons b B)
  with sequence_of_bounds [OF assms, of b] show ?case
    by (simp add: encode_bytes_def)
qed

lemma capacity_buffer_init: "n \<le> capacity (buffer_init n)"
  by (simp add: buffer_init_def)

lemma decode_data_encoded:
  assumes "table_ok T"
  shows "decode_data T (encode_bytes T B)
         = Inr \<lparr>data = B, capacity = capacity (buffer_init (length (encode_bytes T B)))\<rparr>"
proof -
  let ?buf = "buffer_init (length (encode_bytes T B))"
  have "length B \<le> capacity ?buf"
    using length_encode_bytes [OF assms, of B] capacity_buffer_init [of "length (encode_bytes T B)"]
    by simp
  then have "length (data ?buf) + length B \<le> capacity ?buf"
    by (simp add: buffer_init_def)
  from decode_loop_encoded [OF assms this, of "[]"] show ?thesis
    by (simp add: decode_data_def buffer_init_def)
qed

lemma decode_loop_total:
  "i \<le> length input \<Longrightarrow> length (data buf) + (length input - i) \<le> capacity buf \<Longrightarrow>
   \<exists>buf'. decode_loop T input i buf = Inr buf' \<and>
          length (data buf') \<le> length (data buf) + (length input - i)"
proof (induction T input i buf rule: decode_loop.induct)
  case (1 T input i buf)
  show ?case
  proof (cases "i < length input")
    case False
    then show ?thesis by (subst decode_loop.simps) simp
  next
    case True
    let ?seq_len = "clamp_seq_len input i (utf8_sequence_length (input ! i))"
    show ?thesis
    proof (cases "decode_try T input i ?seq_len")
      case None
      have le: "i + 1 \<le> length input" using True by simp
      have cap: "length (data buf) + (length input - (i + 1)) \<le> capacity buf"
        using "1.prems" by arith
      from "1.IH"(1) [OF True refl refl None le cap]
      obtain buf' where "decode_loop T input (i + 1) buf = Inr buf'"
        and "length (data buf') \<le> length (data buf) + (length input - (i + 1))"
        by blast
      with True None show ?thesis
        by (subst decode_loop.simps) (auto simp: Let_def)
    next
      case (Some r)
      obtain len b where r: "r = (len, b)" by (cases r)
      from Some r have bounds: "1 \<le> len \<and> i + len \<le> length input"
        using decode_try_len [of T input i ?seq_len len b] by simp
      let ?buf1 = "buf\<lparr>data := data buf @ [b]\<rparr>"
      have app: "buffer_append_char buf b = Inr ?buf1"
        using True "1.prems" by (simp add: buffer_append_char_eq)
      have cap: "length (data ?buf1) + (length input - (i + len)) \<le> capacity ?buf1"
        using "1.prems" bounds by simp arith
      from "1.IH"(2) [OF True refl refl Some r [symmetric] app conjunct2 [OF bounds] cap]
      obtain buf' where "decode_loop T input (i + len) ?buf1 = Inr buf'"
        and "length (data buf') \<le> length (data ?buf1) + (length input - (i + len))"
        by blast
      with True Some r app bounds show ?thesis
        by (subst decode_loop.simps) (auto simp: Let_def)
    qed
  qed
qed

section \<open>Consequences for the table entries and the sanitizer\<close>

lemma hash_of_sequence_of:
  "table_ok T \<Longrightarrow> hash_of T b = utf8_hash (sequence_of T b) (length (sequence_of T b))"
  using hash_of_sequence [of T b "[]"] by simp

lemma sequence_of_inj:
  assumes "table_ok T" and "sequence_of T b1 = sequence_of T b2"
  shows "b1 = b2"
proof -
  have "hash_of T b1 = hash_of T b2"
    using assms by (simp add: hash_of_sequence_of)
  then have "decode_table T (hash_of T b1) = decode_table T (hash_of T b2)" by simp
  then show ?thesis
    using table_okD(7) [OF assms(1)] by simp
qed

lemma hash_of_inj:
  assumes "table_ok T" and "hash_of T b1 = hash_of T b2"
  shows "b1 = b2"
proof -
  from assms(2) have "decode_table T (hash_of T b1) = decode_table T (hash_of T b2)" by simp
  then show ?thesis
    using table_okD(7) [OF assms(1)] by simp
qed

lemma sequence_of_prefix:
  assumes ok: "table_ok T" and pre: "prefix (sequence_of T b1) (sequence_of T b2)"
  shows "b1 = b2"
proof -
  let ?s1 = "sequence_of T b1" and ?s2 = "sequence_of T b2"
  from pre obtain zs where s2: "?s2 = ?s1 @ zs" by (auto simp: prefix_def)
  have ne: "?s1 \<noteq> []" using sequence_of_bounds [OF ok, of b1] by auto
  then have "?s2 ! 0 = ?s1 ! 0" by (simp add: s2 nth_append)
  then have "length ?s2 = length ?s1"
    using sequence_of_lead [OF ok, of b1] sequence_of_lead [OF ok, of b2] by simp
  with s2 have "?s2 = ?s1" by simp
  with ok show ?thesis by (simp add: sequence_of_inj)
qed

lemma fold_build_decode_valid:
  "snd (fold (build_decode_step enc) [0..<n] init) k \<Longrightarrow>
   snd init k \<or> (\<exists>j<n. utf8_hash (bytes (enc ! j)) (length_seq (enc ! j)) = k)"
proof (induction n)
  case 0
  then show ?case by simp
next
  case (Suc n)
  then show ?case
    by (auto simp: build_decode_step_def Let_def less_Suc_eq split: if_splits)
qed

lemma not_overwritten:
  "\<not> snd (fold (build_decode_step (encode_table init_tables)) [0..<unat b] (\<lambda>_. 0, \<lambda>_. False))
       (hash_of init_tables b)"
proof
  assume "snd (fold (build_decode_step (encode_table init_tables)) [0..<unat b] (\<lambda>_. 0, \<lambda>_. False))
       (hash_of init_tables b)"
  from fold_build_decode_valid [OF this]
  obtain j where j: "j < unat b"
    and eq: "utf8_hash (bytes (encode_table init_tables ! j)) (length_seq (encode_table init_tables ! j))
             = hash_of init_tables b"
    by auto
  have j256: "j < 256" using j unat_byte_less [of b] by simp
  then have "unat (of_nat j :: uint8_t) = j" by (simp add: unat_of_nat)
  with eq have "hash_of init_tables (of_nat j) = hash_of init_tables b"
    by (simp add: hash_of_def)
  then have "(of_nat j :: uint8_t) = b" by (rule hash_of_inj [OF init_tables_ok])
  then have "unat (of_nat j :: uint8_t) = unat b" by simp
  with \<open>unat (of_nat j :: uint8_t) = j\<close> j show False by simp
qed

lemma special_152_184: "special_sequences 152 \<noteq> None" "special_sequences 184 \<noteq> None"
  by (simp_all add: special_sequences_def)

lemma set_encode_bytes:
  assumes "table_ok T"
  shows "set (encode_bytes T B) \<inter> whitespace = {}"
  using table_okD(5) [OF assms] by (auto simp: encode_bytes_def)

lemma clean_loop_eq:
  "length (data buf) + length xs \<le> capacity buf \<Longrightarrow>
   clean_loop xs buf = Inr (buf\<lparr>data := data buf @ filter (\<lambda>c. c \<notin> whitespace) xs\<rparr>)"
proof (induction xs arbitrary: buf)
  case Nil
  show ?case by simp
next
  case (Cons c xs)
  show ?case
  proof (cases "c \<in> whitespace")
    case True
    with Cons.IH [of buf] Cons.prems show ?thesis by (auto simp: whitespace_def)
  next
    case False
    have "clean_loop xs (buf\<lparr>data := data buf @ [c]\<rparr>)
          = Inr (buf\<lparr>data := (data buf @ [c]) @ filter (\<lambda>c. c \<notin> whitespace) xs\<rparr>)"
      using Cons.IH [of "buf\<lparr>data := data buf @ [c]\<rparr>"] Cons.prems by simp
    with False Cons.prems show ?thesis
      by (simp add: whitespace_def buffer_append_char_eq)
  qed
qed

lemma clean_decode_input_eq:
  "clean_decode_input input
   = Inr \<lparr>data = filter (\<lambda>c. c \<notin> whitespace) (data input),
          capacity = capacity (buffer_init (length (data input)))\<rparr>"
proof -
  let ?buf = "buffer_init (length (data input))"
  have "length (data ?buf) + length (data input) \<le> capacity ?buf"
    using capacity_buffer_init [of "length (data input)"] by (simp add: buffer_init_def)
  from clean_loop_eq [OF this] show ?thesis
    by (simp add: clean_decode_input_def buffer_init_def)
qed

section \<open>The decoder's inner loop, length by length\<close>

lemma descending_lengths:
  "rev [Suc 0..<2] = [Suc 0]" "rev [Suc 0..<3] = [2, Suc 0]" "rev [Suc 0..<4] = [3, 2, Suc 0]"
  by (simp_all add: upt_rec)

lemma decode_try_0: "decode_try T input i 0 = None"
  by (subst decode_try.simps) simp

lemma decode_try_step:
  "1 \<le> len \<Longrightarrow> len \<le> 3 \<Longrightarrow>
   decode_try T input i len =
     (if lookup_hit T input i len then Some (len, decode_table T (utf8_hash (drop i input) len))
      else decode_try T input i (len - 1))"
  by (subst decode_try.simps) (simp add: lookup_hit_def Let_def)

lemma decode_try_1:
  "decode_try T input i (Suc 0) =
     (if lookup_hit T input i (Suc 0)
      then Some (Suc 0, decode_table T (utf8_hash (drop i input) (Suc 0))) else None)"
  using decode_try_step [of "Suc 0" T input i] by (simp add: decode_try_0)

lemma decode_try_2:
  "decode_try T input i 2 =
     (if lookup_hit T input i 2 then Some (2, decode_table T (utf8_hash (drop i input) 2))
      else decode_try T input i (Suc 0))"
  using decode_try_step [of 2 T input i] by simp

lemma decode_try_3:
  "decode_try T input i 3 =
     (if lookup_hit T input i 3 then Some (3, decode_table T (utf8_hash (drop i input) 3))
      else decode_try T input i 2)"
  using decode_try_step [of 3 T input i] by simp

section \<open>Looking up the decode table at given keys\<close>

lemma hash_of_init:
  "hash_of init_tables b =
     utf8_hash (bytes (encode_entry (unat b) calloc_sequence))
       (length_seq (encode_entry (unat b) calloc_sequence))"
  by (simp add: hash_of_def encode_table_init build_encode_table_nth unat_byte_less)

lemma unat_hash_of_init: "unat (hash_of init_tables b) = entry_hashes ! unat b"
  using entry_ok_256 [OF unat_byte_less, of b]
  by (simp add: hash_of_init entry_ok_def entry_props_def)

lemma decode_table_valid_iff:
  "decode_table_valid init_tables k \<longleftrightarrow> unat k \<in> set entry_hashes"
proof
  assume "decode_table_valid init_tables k"
  then have "snd (fold (build_decode_step build_encode_table) [0..<256] (\<lambda>_. 0, \<lambda>_. False)) k"
    by (simp add: init_tables_def Let_def)
  from fold_build_decode_valid [OF this]
  obtain j where j: "j < 256"
    and eq: "utf8_hash (bytes (build_encode_table ! j)) (length_seq (build_encode_table ! j)) = k"
    by auto
  from j have "unat (of_nat j :: uint8_t) = j" by (simp add: unat_of_nat)
  with eq have "hash_of init_tables (of_nat j) = k"
    by (simp add: hash_of_def encode_table_init)
  then have "unat k = entry_hashes ! j"
    using unat_hash_of_init [of "of_nat j"] \<open>unat (of_nat j :: uint8_t) = j\<close> by simp
  with j show "unat k \<in> set entry_hashes"
    by (simp add: length_entry_hashes)
next
  assume "unat k \<in> set entry_hashes"
  then obtain j where j: "j < 256" and eq: "entry_hashes ! j = unat k"
    by (auto simp: in_set_conv_nth length_entry_hashes)
  from j have uj: "unat (of_nat j :: uint8_t) = j" by (simp add: unat_of_nat)
  have "unat (hash_of init_tables (of_nat j)) = unat k"
    using unat_hash_of_init [of "of_nat j"] uj eq by simp
  then have "hash_of init_tables (of_nat j) = k" by (simp add: word_unat_eq_iff)
  with table_okD(6) [OF init_tables_ok, of "of_nat j"] show "decode_table_valid init_tables k"
    by simp
qed

lemma decode_table_at_hash:
  "unat k = entry_hashes ! unat b \<Longrightarrow> decode_table init_tables k = b"
proof -
  assume "unat k = entry_hashes ! unat b"
  then have "unat k = unat (hash_of init_tables b)" by (simp add: unat_hash_of_init)
  then have "k = hash_of init_tables b" by (simp add: word_unat_eq_iff)
  with table_okD(7) [OF init_tables_ok, of b] show ?thesis by simp
qed

lemma valid_examples:
  "decode_table_valid init_tables 0x2205"
  "decode_table_valid init_tables 0x41"
  "\<not> decode_table_valid init_tables 0x8885"
  "\<not> decode_table_valid init_tables 0x88"
  "\<not> decode_table_valid init_tables 0x8541"
  "\<not> decode_table_valid init_tables 0x85"
  by (simp_all add: decode_table_valid_iff entry_hashes_def)

lemma decode_examples:
  "decode_table init_tables 0x2205 = 0x00"
  "decode_table init_tables 0x41 = 0x41"
  by (rule decode_table_at_hash, simp add: entry_hashes_def)+

section \<open>The formatter on encoder output\<close>

lemma append_chars_eq:
  "length (data buf) \<le> capacity buf \<Longrightarrow> append_chars buf cs = buffer_append buf cs"
proof (induction cs arbitrary: buf)
  case Nil
  then show ?case by (simp add: buffer_append_eq)
next
  case (Cons c cs)
  show ?case
  proof (cases "length (data buf) + 1 \<le> capacity buf")
    case True
    with Cons.IH [of "buf\<lparr>data := data buf @ [c]\<rparr>"] show ?thesis
      by (simp add: buffer_append_char_eq buffer_append_eq)
  next
    case False
    then show ?thesis by (simp add: buffer_append_char_eq buffer_append_eq)
  qed
qed

lemma add_spacing_eq:
  assumes "0 < g" "0 < n" "length (data buf) \<le> capacity buf"
  shows "add_spacing size_in g n c i buf = buffer_append buf (separator g n c (i < size_in))"
  using assms
  by (auto simp: add_spacing_def mod_size_t_def div_size_t_def separator_def
      buffer_append_char_eq buffer_append_eq)

lemma format_loop_encoded:
  assumes ok: "table_ok T" and g: "0 < g" and n: "0 < n"
  shows "length (data buf) \<le> capacity buf \<Longrightarrow>
         format_loop (pre @ encode_bytes T B) g n c (length pre) buf
         = buffer_append buf (formatted_units T g n c B)"
proof (induction B arbitrary: pre c buf)
  case Nil
  then show ?case by (subst format_loop.simps) (simp add: encode_bytes_def buffer_append_eq)
next
  case (Cons b B)
  let ?sq = "sequence_of T b"
  let ?sep = "separator g n (Suc c) (B \<noteq> [])"
  let ?input = "pre @ encode_bytes T (b # B)"
  have input: "?input = pre @ ?sq @ encode_bytes T B"
    by (simp add: encode_bytes_def)
  have len: "1 \<le> length ?sq \<and> length ?sq \<le> 3" using ok by (rule sequence_of_bounds)
  then have nonempty: "?sq \<noteq> []" by auto
  have lt: "length pre < length ?input" using nonempty by (simp add: input)
  have first: "?input ! length pre = ?sq ! 0"
    using nonempty by (simp add: input nth_append)
  have lead: "utf8_sequence_length (?sq ! 0) = length ?sq" using ok by (rule sequence_of_lead)
  have chunk: "take (length ?sq) (drop (length pre) ?input) = ?sq"
    by (simp add: input)
  have remains: "length pre + length ?sq < length ?input \<longleftrightarrow> B \<noteq> []"
  proof (cases B)
    case Nil
    then show ?thesis by (simp add: input encode_bytes_def)
  next
    case (Cons b' B')
    with sequence_of_bounds [OF ok, of b'] show ?thesis
      by (auto simp: input encode_bytes_def)
  qed
  have unfold: "format_loop ?input g n c (length pre) buf =
    (case append_chars buf ?sq of
       Inl e \<Rightarrow> Inl e
     | Inr buf1 \<Rightarrow>
         (case add_spacing (length ?input) g n (c + 1) (length pre + length ?sq) buf1 of
            Inl e \<Rightarrow> Inl e
          | Inr buf2 \<Rightarrow> format_loop ?input g n (c + 1) (length pre + length ?sq) buf2))"
    apply (subst format_loop.simps)
    using lt first lead chunk by (simp add: Let_def)
  show ?case
  proof (cases "length (data buf) + length ?sq \<le> capacity buf")
    case False
    then show ?thesis
      by (simp add: unfold append_chars_eq [OF Cons.prems] buffer_append_eq)
  next
    case fits1: True
    let ?buf1 = "buf\<lparr>data := data buf @ ?sq\<rparr>"
    have wf1: "length (data ?buf1) \<le> capacity ?buf1" using fits1 by simp
    have step1: "append_chars buf ?sq = Inr ?buf1"
      using fits1 by (simp add: append_chars_eq [OF Cons.prems] buffer_append_eq)
    have step2: "add_spacing (length ?input) g n (c + 1) (length pre + length ?sq) ?buf1
                 = buffer_append ?buf1 ?sep"
      using add_spacing_eq [OF g n wf1] remains by simp
    have eq1: "format_loop ?input g n c (length pre) buf =
      (case buffer_append ?buf1 ?sep of
         Inl e \<Rightarrow> Inl e
       | Inr buf2 \<Rightarrow> format_loop ?input g n (c + 1) (length pre + length ?sq) buf2)"
      by (simp only: unfold step1 sum.case step2)
    show ?thesis
    proof (cases "length (data ?buf1) + length ?sep \<le> capacity ?buf1")
      case False
      then have "buffer_append ?buf1 ?sep = Inl BufferOverflow"
        by (simp add: buffer_append_eq)
      moreover have "buffer_append buf (formatted_units T g n c (b # B)) = Inl BufferOverflow"
        using False by (simp add: buffer_append_eq)
      ultimately show ?thesis by (simp only: eq1 sum.case)
    next
      case fits2: True
      let ?buf2 = "?buf1\<lparr>data := data ?buf1 @ ?sep\<rparr>"
      have wf2: "length (data ?buf2) \<le> capacity ?buf2" using fits2 by simp
      have IH: "format_loop ((pre @ ?sq) @ encode_bytes T B) g n (Suc c) (length (pre @ ?sq)) ?buf2
            = buffer_append ?buf2 (formatted_units T g n (Suc c) B)"
        using wf2 by (rule Cons.IH)
      have "buffer_append ?buf1 ?sep = Inr ?buf2"
        using fits2 by (simp add: buffer_append_eq)
      then have "format_loop ?input g n c (length pre) buf
                 = format_loop ?input g n (c + 1) (length pre + length ?sq) ?buf2"
        by (simp only: eq1 sum.case)
      also have "\<dots> = buffer_append ?buf2 (formatted_units T g n (Suc c) B)"
        using IH by (simp add: input)
      also have "\<dots> = buffer_append buf (formatted_units T g n c (b # B))"
        using fits1 fits2 by (simp add: buffer_append_eq)
      finally show ?thesis .
    qed
  qed
qed


lemma separator_length:
  assumes g: "0 < g" and n: "0 < n"
  shows "length (separator g n (Suc c) r) + c div g + c div (g * n)
         \<le> Suc c div g + Suc c div (g * n)"
proof -
  have mono1: "c div g \<le> Suc c div g" by (rule div_le_mono) simp
  have mono2: "c div (g * n) \<le> Suc c div (g * n)" by (rule div_le_mono) simp
  show ?thesis
  proof (cases "Suc c mod g = 0 \<and> r")
    case False
    have "c div g + c div (g * n) \<le> Suc c div g + Suc c div (g * n)"
      using mono1 mono2 by (rule add_mono)
    with False show ?thesis by (auto simp: separator_def)
  next
    case True
    then have d1: "Suc c div g = Suc (c div g)" by (simp add: div_Suc)
    show ?thesis
    proof (cases "(Suc c div g) mod n = 0")
      case False
      with True d1 mono2 show ?thesis by (simp add: separator_def)
    next
      case line: True
      have "Suc c mod (g * n) = g * (Suc c div g mod n) + Suc c mod g"
        by (rule mod_mult2_eq)
      with True line have "Suc c mod (g * n) = 0" by simp
      then have "Suc c div (g * n) = Suc (c div (g * n))" by (simp add: div_Suc)
      with True line d1 show ?thesis by (simp add: separator_def)
    qed
  qed
qed

lemma formatted_units_length:
  assumes ok: "table_ok T" and g: "0 < g" and n: "0 < n"
  shows "length (formatted_units T g n c B) + c div g + c div (g * n)
         \<le> length (encode_bytes T B) + (c + length B) div g + (c + length B) div (g * n)"
proof (induction B arbitrary: c)
  case Nil
  show ?case by (simp add: encode_bytes_def)
next
  case (Cons b B)
  from Cons.IH [of "Suc c"] separator_length [OF g n, of c "B \<noteq> []"]
  show ?case by (simp add: encode_bytes_def)
qed

lemma formatted_units_fit:
  assumes ok: "table_ok T" and g: "0 < g" and n: "0 < n"
  shows "length (formatted_units T g n 0 B)
         \<le> length (encode_bytes T B) + length (encode_bytes T B) div g
             + length (encode_bytes T B) div (g * n)"
proof -
  let ?L = "length (encode_bytes T B)"
  have le: "length B \<le> ?L" using length_encode_bytes [OF ok, of B] by simp
  have "length B div g \<le> ?L div g" using le by (rule div_le_mono)
  moreover have "length B div (g * n) \<le> ?L div (g * n)" using le by (rule div_le_mono)
  ultimately show ?thesis
    using formatted_units_length [OF ok g n, of 0 B] by simp
qed

lemma filter_separator: "filter (\<lambda>c. c \<notin> whitespace) (separator g n c r) = []"
  by (simp add: separator_def whitespace_def)

lemma filter_formatted_units:
  assumes "table_ok T"
  shows "filter (\<lambda>c. c \<notin> whitespace) (formatted_units T g n c B) = encode_bytes T B"
proof (induction B arbitrary: c)
  case Nil
  show ?case by (simp add: encode_bytes_def)
next
  case (Cons b B)
  have "filter (\<lambda>c. c \<notin> whitespace) (sequence_of T b) = sequence_of T b"
    using table_okD(5) [OF assms, of b] by (auto simp: filter_id_conv)
  with Cons.IH [of "Suc c"] show ?case
    by (simp add: filter_separator) (simp add: encode_bytes_def)
qed

lemma formatted_units_boundaries:
  "\<exists>seps. length seps = length B \<and>
          (\<forall>s \<in> set seps. s = [] \<or> s = [0x20] \<or> s = [0x20, 0x0A]) \<and>
          formatted_units T g n c B = concat (map2 (\<lambda>b s. sequence_of T b @ s) B seps)"
proof (induction B arbitrary: c)
  case Nil
  show ?case by simp
next
  case (Cons b B)
  from Cons.IH [of "Suc c"] obtain seps where seps: "length seps = length B"
    "\<forall>s \<in> set seps. s = [] \<or> s = [0x20] \<or> s = [0x20, 0x0A]"
    "formatted_units T g n (Suc c) B = concat (map2 (\<lambda>b s. sequence_of T b @ s) B seps)"
    by blast
  let ?sep = "separator g n (Suc c) (B \<noteq> [])"
  have "?sep = [] \<or> ?sep = [0x20] \<or> ?sep = [0x20, 0x0A]"
    by (simp add: separator_def)
  with seps show ?case
    by (intro exI [of _ "?sep # seps"]) simp
qed

lemma to_size_t_pos: "1 \<le> x \<Longrightarrow> x \<le> INT_MAX \<Longrightarrow> to_size_t x = nat x"
  by (simp add: to_size_t_def INT_MAX_def)

lemma int_mul_exact:
  "1 \<le> g \<Longrightarrow> 1 \<le> n \<Longrightarrow> g * n \<le> INT_MAX \<Longrightarrow> int_mul g n = g * n"
proof -
  assume "1 \<le> g" "1 \<le> n" "g * n \<le> INT_MAX"
  then have "0 \<le> g * n + 2 ^ 31" "g * n + 2 ^ 31 < 2 ^ 32"
    by (simp_all add: INT_MAX_def)
  then have "(g * n + 2 ^ 31) mod 2 ^ 32 = g * n + 2 ^ 31" by simp
  then show ?thesis by (simp add: int_mul_def)
qed

lemma factors_le_product:
  fixes g n :: int
  assumes "1 \<le> g" "1 \<le> n"
  shows "g \<le> g * n" "n \<le> g * n"
proof -
  have "g * 1 \<le> g * n" using assms by (intro mult_left_mono) simp_all
  then show "g \<le> g * n" by simp
  have "1 * n \<le> g * n" using assms by (intro mult_right_mono) simp_all
  then show "n \<le> g * n" by simp
qed

lemma format_output_eq:
  assumes ok: "table_ok T" and g: "0 < to_size_t g" and n: "0 < to_size_t n"
    and p: "0 < to_size_t (int_mul g n)"
  shows "format_output \<lparr>data = encode_bytes T B, capacity = cap\<rparr> g n =
      buffer_append
        (buffer_init (length (encode_bytes T B) + length (encode_bytes T B) div to_size_t g
           + length (encode_bytes T B) div to_size_t (int_mul g n)))
        (formatted_units T (to_size_t g) (to_size_t n) 0 B)"
proof -
  have wf: "length (data (buffer_init k)) \<le> capacity (buffer_init k)" for k
    by (simp add: buffer_init_def)
  from format_loop_encoded [OF ok g n wf, of "[]" B 0] g p show ?thesis
    by (simp add: format_output_def div_size_t_def Let_def)
qed

lemma format_output_ok:
  assumes ok: "table_ok T" and g: "1 \<le> g" and n: "1 \<le> n" and p: "g * n \<le> INT_MAX"
  shows "\<exists>out. format_output \<lparr>data = encode_bytes T B, capacity = cap\<rparr> g n = Inr out \<and>
               data out = formatted_units T (nat g) (nat n) 0 B"
proof -
  let ?L = "length (encode_bytes T B)"
  have "g \<le> INT_MAX" using factors_le_product(1) [OF g n] p by simp
  with g have sg: "to_size_t g = nat g" by (rule to_size_t_pos)
  have "n \<le> INT_MAX" using factors_le_product(2) [OF g n] p by simp
  with n have sn: "to_size_t n = nat n" by (rule to_size_t_pos)
  have "1 \<le> g * n" using order_trans [OF g factors_le_product(1) [OF g n]] .
  then have sp: "to_size_t (int_mul g n) = nat g * nat n"
    using p g n by (simp add: int_mul_exact to_size_t_pos nat_mult_distrib)
  have pos: "0 < nat g" "0 < nat n" using g n by simp_all
  have fit: "length (formatted_units T (nat g) (nat n) 0 B)
             \<le> ?L + ?L div nat g + ?L div (nat g * nat n)"
    using formatted_units_fit [OF ok pos] .
  have "format_output \<lparr>data = encode_bytes T B, capacity = cap\<rparr> g n =
      buffer_append (buffer_init (?L + ?L div nat g + ?L div (nat g * nat n)))
        (formatted_units T (nat g) (nat n) 0 B)"
    using format_output_eq [OF ok, of g n B cap] pos by (simp add: sg sn sp)
  with fit capacity_buffer_init [of "?L + ?L div nat g + ?L div (nat g * nat n)"] show ?thesis
    by (simp add: buffer_append_eq buffer_init_def)
qed


lemma to_size_t_int_mul_zero:
  assumes "to_size_t n = 0"
  shows "to_size_t (int_mul g n) = 0"
proof -
  have "0 \<le> n mod 2 ^ 64" by simp
  with assms have "n mod 2 ^ 64 = 0" by (simp add: to_size_t_def)
  then have "(2 :: int) ^ 64 dvd n" by (simp add: dvd_eq_mod_eq_0)
  moreover have "(2 :: int) ^ 32 dvd 2 ^ 64" by (rule le_imp_power_dvd) simp
  ultimately have "(2 :: int) ^ 32 dvd g * n" by (meson dvd_trans dvd_mult)
  then have "(g * n) mod 2 ^ 32 = 0" by (simp add: dvd_eq_mod_eq_0)
  then have "(g * n + 2 ^ 31) mod 2 ^ 32 = (0 + 2 ^ 31) mod 2 ^ 32"
    by (metis mod_add_left_eq)
  then have "int_mul g n = 0" by (simp add: int_mul_def)
  then show ?thesis by (simp add: to_size_t_def)
qed

lemma format_output_Inr:
  assumes ok: "table_ok T"
    and ret: "format_output \<lparr>data = encode_bytes T B, capacity = cap\<rparr> g n = Inr out"
  shows "data out = formatted_units T (to_size_t g) (to_size_t n) 0 B"
proof -
  have g: "0 < to_size_t g"
    using ret by (auto simp: format_output_def div_size_t_def Let_def split: if_splits)
  have p: "0 < to_size_t (int_mul g n)"
    using ret g by (auto simp: format_output_def div_size_t_def Let_def split: if_splits)
  have n: "0 < to_size_t n"
    using p to_size_t_int_mul_zero [of n g] by auto
  from ret show ?thesis
    by (simp add: format_output_eq [OF ok g n p] buffer_append_eq buffer_init_def
        split: if_splits) auto
qed

section \<open>The decoder's retry, and the formatted round trip within \<open>int\<close>\<close>

text \<open>
  Started at a length of at most 3, the inner loop of the decoder looks up that length,
  then each shorter one down to 1, and the first hit wins; started at 4 or more it makes no
  lookup.
\<close>

lemma decode_try_descending:
  "decode_try T input i len =
     (if len \<le> 3 then
        (case find (lookup_hit T input i) (rev [1..<Suc len]) of
           None \<Rightarrow> None
         | Some k \<Rightarrow> Some (k, decode_table T (utf8_hash (drop i input) k)))
      else None)"
proof -
  consider "len = 0" | "len = 1" | "len = 2" | "len = 3" | "3 < len" by linarith
  then show ?thesis
  proof cases
    case 1
    then show ?thesis by (simp add: decode_try_0)
  next
    case 2
    then show ?thesis
      by (simp add: decode_try_1 descending_lengths)
  next
    case 3
    then show ?thesis
      by (simp add: decode_try_2 decode_try_1 descending_lengths)
  next
    case 4
    then show ?thesis
      by (simp add: decode_try_3 decode_try_2 decode_try_1 descending_lengths)
  next
    case 5
    then show ?thesis by (subst decode_try.simps) simp
  qed
qed

text \<open>
  When both parameters are at least 1 and their product is within \<open>int\<close>, encoding,
  formatting, sanitizing and decoding all return, and the decoded bytes are the buffer.
\<close>

lemma formatted_round_trip:
  assumes g: "1 \<le> g" and n: "1 \<le> n" and p: "g * n \<le> INT_MAX"
  shows "\<exists>enc fmt cleaned dec.
           encode_data init_tables B = Inr enc \<and> format_output enc g n = Inr fmt \<and>
           data fmt = formatted_units init_tables (nat g) (nat n) 0 B \<and>
           clean_decode_input fmt = Inr cleaned \<and>
           data cleaned = encode_bytes init_tables B \<and>
           decode_data init_tables (data cleaned) = Inr dec \<and> data dec = B"
proof -
  let ?enc = "\<lparr>data = encode_bytes init_tables B, capacity = capacity (buffer_init (length B * 3))\<rparr>"
  have enc: "encode_data init_tables B = Inr ?enc"
    by (rule encode_data_ok [OF init_tables_ok])
  from format_output_ok [OF init_tables_ok g n p, of B "capacity (buffer_init (length B * 3))"]
  obtain fmt where fmt: "format_output ?enc g n = Inr fmt"
    and units: "data fmt = formatted_units init_tables (nat g) (nat n) 0 B"
    by blast
  let ?cleaned = "\<lparr>data = filter (\<lambda>c. c \<notin> whitespace) (data fmt),
                   capacity = capacity (buffer_init (length (data fmt)))\<rparr>"
  have cleaned: "clean_decode_input fmt = Inr ?cleaned"
    by (rule clean_decode_input_eq)
  have same: "data ?cleaned = encode_bytes init_tables B"
    by (simp add: units filter_formatted_units [OF init_tables_ok])
  then have "\<exists>dec. decode_data init_tables (data ?cleaned) = Inr dec \<and> data dec = B"
    by (simp add: decode_data_encoded [OF init_tables_ok])
  with enc fmt units cleaned same show ?thesis by blast
qed

lemma sequence_of_examples:
  "sequence_of init_tables 0x00 = [0xE2, 0x88, 0x85]"
  "sequence_of init_tables 0x41 = [0x41]"
  "sequence_of init_tables 0x80 = [0xC3, 0x80]"
  by (simp_all add: sequence_of_def seq_bytes_def encode_table_init build_encode_table_nth
      encoding_examples)

text \<open>
  Three bytes in groups of 1, 2 groups per line: a space after the first unit, a space and
  a newline after the second, all of them removed again before decoding.
\<close>

lemma formatted_round_trip_example:
  "\<exists>enc fmt cleaned dec.
     encode_data init_tables [0x00, 0x41, 0x80] = Inr enc \<and> format_output enc 1 2 = Inr fmt \<and>
     data fmt = [0xE2, 0x88, 0x85, 0x20, 0x41, 0x20, 0x0A, 0xC3, 0x80] \<and>
     clean_decode_input fmt = Inr cleaned \<and>
     data cleaned = [0xE2, 0x88, 0x85, 0x41, 0xC3, 0x80] \<and>
     decode_data init_tables (data cleaned) = Inr dec \<and> data dec = [0x00, 0x41, 0x80]"
  using formatted_round_trip [of 1 2 "[0x00, 0x41, 0x80]"]
  by (simp add: INT_MAX_def separator_def encode_bytes_def sequence_of_examples)

section \<open>Verified properties\<close>

text \<open>
  C1 (round-trip identity). For every byte buffer \<open>B\<close>, the empty one included,
  \<open>encode_data\<close> returns a buffer, \<open>decode_data\<close> on its bytes returns a buffer, and the
  decoded bytes are exactly \<open>B\<close>.
\<close>

theorem round_trip_identity:
  "\<exists>enc dec. encode_data init_tables B = Inr enc \<and>
             decode_data init_tables (data enc) = Inr dec \<and>
             data dec = B"
  by (simp add: encode_data_ok [OF init_tables_ok] decode_data_encoded [OF init_tables_ok])

text \<open>
  C8 (decoder resilience). For every input buffer and whatever the tables hold,
  \<open>decode_data\<close> terminates (it is a total function), does not leave through the
  overflow exit of \<open>buffer_append\<close>, and returns at most as many bytes as it was given.
\<close>

theorem decode_data_resilient:
  "\<exists>out. decode_data T input = Inr out \<and> length (data out) \<le> length input"
proof -
  let ?buf = "buffer_init (length input)"
  have "length (data ?buf) + (length input - 0) \<le> capacity ?buf"
    using capacity_buffer_init [of "length input"] by (simp add: buffer_init_def)
  from decode_loop_total [OF _ this, of T] show ?thesis
    by (simp add: decode_data_def buffer_init_def)
qed

text \<open>
  C3 (injectivity). Two distinct byte values are never assigned the same byte sequence by
  the table builder.
\<close>

theorem encode_table_injective:
  "b1 \<noteq> b2 \<Longrightarrow> sequence_of init_tables b1 \<noteq> sequence_of init_tables b2"
  using sequence_of_inj [OF init_tables_ok] by blast

theorem encode_table_injective_witness:
  "(0x80 :: uint8_t) \<noteq> 0xC0 \<and> sequence_of init_tables 0x80 \<noteq> sequence_of init_tables 0xC0"
  using encode_table_injective [of "0x80" "0xC0"] by simp

text \<open>
  C4 (completeness). Every byte value has an entry of one to three bytes, made by the first
  rule that applies to it: the curated override, else the identity on 33..126, else the
  prefix 0xC3 on 128..191, else the prefix 0xC4 on 192..255; and one of the rules applies to
  every byte value.
\<close>

theorem encode_table_complete:
  "1 \<le> length (sequence_of init_tables b) \<and> length (sequence_of init_tables b) \<le> 3 \<and>
   length_seq (encode_table init_tables ! unat b) = length (sequence_of init_tables b) \<and>
   encode_table init_tables ! unat b =
     (case special_sequences (unat b) of
        Some cs \<Rightarrow> make_utf8 (cs @ [0])
      | None \<Rightarrow>
          if 33 \<le> unat b \<and> unat b \<le> 126 then make_utf8 [b, 0]
          else if 128 \<le> unat b \<and> unat b \<le> 191 then make_utf8 [0xc3, b, 0]
          else make_utf8 [0xc4, of_nat (unat b - 192 + 128), 0]) \<and>
   (special_sequences (unat b) = None \<longrightarrow>
      (33 \<le> unat b \<and> unat b \<le> 126) \<or> (128 \<le> unat b \<and> unat b \<le> 191) \<or> 192 \<le> unat b)"
proof -
  let ?i = "unat b"
  let ?s = "encode_table init_tables ! ?i"
  have s: "?s = encode_entry ?i calloc_sequence"
    by (simp add: encode_table_init build_encode_table_nth unat_byte_less)
  have pos: "1 \<le> length_seq ?s" by (rule table_okD(1) [OF init_tables_ok])
  have branch: "special_sequences ?i = None \<Longrightarrow>
      (33 \<le> ?i \<and> ?i \<le> 126) \<or> (128 \<le> ?i \<and> ?i \<le> 191) \<or> 192 \<le> ?i"
  proof (rule ccontr)
    assume none: "special_sequences ?i = None"
      and "\<not> ((33 \<le> ?i \<and> ?i \<le> 126) \<or> (128 \<le> ?i \<and> ?i \<le> 191) \<or> 192 \<le> ?i)"
    then have "encode_entry ?i calloc_sequence = calloc_sequence"
      by (auto simp: encode_entry_case)
    with s pos show False by (simp add: calloc_sequence_def)
  qed
  have entry: "?s =
     (case special_sequences ?i of
        Some cs \<Rightarrow> make_utf8 (cs @ [0])
      | None \<Rightarrow>
          if 33 \<le> ?i \<and> ?i \<le> 126 then make_utf8 [b, 0]
          else if 128 \<le> ?i \<and> ?i \<le> 191 then make_utf8 [0xc3, b, 0]
          else make_utf8 [0xc4, of_nat (?i - 192 + 128), 0])"
  proof (cases "special_sequences ?i")
    case (Some cs)
    then show ?thesis by (simp add: s encode_entry_case)
  next
    case None
    with special_152_184 have "?i \<noteq> 152" "?i \<noteq> 184" by auto
    with None branch [OF None] show ?thesis
      by (auto simp: s encode_entry_case)
  qed
  from sequence_of_bounds [OF init_tables_ok, of b] length_sequence_of [OF init_tables_ok, of b]
    entry branch
  show ?thesis by simp
qed

theorem encode_table_complete_witness:
  "special_sequences (unat (0xC0 :: uint8_t)) = None \<and> 192 \<le> unat (0xC0 :: uint8_t) \<and>
   encode_table init_tables ! unat (0xC0 :: uint8_t) = make_utf8 [0xc4, 0x80, 0]"
  using encode_table_complete [of "0xC0"] by (simp add: special_sequences_def)

text \<open>
  C6 (the decode hash on the produced sequences). For every byte value \<open>b\<close> the decode
  table is marked valid at the hash of the entry of \<open>b\<close> and holds \<open>b\<close> there; when the
  loop "Build decode table" reaches \<open>b\<close> that slot has not been written by an earlier
  iteration; and a different byte value has a different hash.
\<close>

theorem decode_table_inverts_hash:
  "decode_table_valid init_tables (hash_of init_tables b) \<and>
   decode_table init_tables (hash_of init_tables b) = b \<and>
   \<not> snd (fold (build_decode_step (encode_table init_tables)) [0..<unat b] (\<lambda>_. 0, \<lambda>_. False))
       (hash_of init_tables b) \<and>
   (b' \<noteq> b \<longrightarrow> hash_of init_tables b' \<noteq> hash_of init_tables b)"
  using table_okD(6,7) [OF init_tables_ok, of b] not_overwritten [of b]
    hash_of_inj [OF init_tables_ok, of b' b]
  by blast

theorem decode_table_inverts_hash_witness:
  "(0x08 :: uint8_t) \<noteq> 0x00 \<and> hash_of init_tables 0x08 \<noteq> hash_of init_tables 0x00 \<and>
   decode_table_valid init_tables (hash_of init_tables 0x00) \<and>
   decode_table init_tables (hash_of init_tables 0x00) = 0x00"
  using decode_table_inverts_hash [of "0x00" "0x08"] by simp

text \<open>
  C9 (prefix-freeness). For distinct byte values, the sequence of the one is not a
  byte-prefix of the sequence of the other.
\<close>

theorem encode_table_prefix_free:
  "b1 \<noteq> b2 \<Longrightarrow> \<not> prefix (sequence_of init_tables b1) (sequence_of init_tables b2)"
  using sequence_of_prefix [OF init_tables_ok] by blast

theorem encode_table_prefix_free_witness:
  "(0x00 :: uint8_t) \<noteq> 0x7C \<and>
   \<not> prefix (sequence_of init_tables 0x00) (sequence_of init_tables 0x7C)"
  using encode_table_prefix_free [of "0x00" "0x7C"] by simp

text \<open>
  C10 (no whitespace in encoder output). For every input, the output of \<open>encode_data\<close>
  contains none of the bytes space, tab, line feed and carriage return, and
  \<open>clean_decode_input\<close> returns it unchanged.
\<close>

theorem encoder_output_no_whitespace:
  "\<exists>enc cleaned. encode_data init_tables B = Inr enc \<and>
     set (data enc) \<inter> {0x20, 0x09, 0x0A, 0x0D} = {} \<and>
     clean_decode_input enc = Inr cleaned \<and> data cleaned = data enc"
proof -
  have ws: "set (encode_bytes init_tables B) \<inter> whitespace = {}"
    by (rule set_encode_bytes [OF init_tables_ok])
  then have "filter (\<lambda>c. c \<notin> whitespace) (encode_bytes init_tables B) = encode_bytes init_tables B"
    by (auto simp: filter_id_conv)
  with ws show ?thesis
    by (simp add: encode_data_ok [OF init_tables_ok] clean_decode_input_eq whitespace_def)
qed

text \<open>
  C5 (retry at shorter lengths). The estimate is 1 for a leading byte below 0x80, 2 below
  0xE0, 3 below 0xF0 and 4 from 0xF0 on, and the inner loop starts at the estimate clamped
  to the bytes left; its comment reads "Try from expected length down to 1". On the bytes
  F2 88 85 41 the estimate is 4 and is not clamped: the loop condition \<open>len <= 3\<close> ends
  the loop before any lookup, although the lookup at length 3 hits and yields 00. The
  bytes F2, 88, 85 are skipped one by one and the decoder returns 41 alone. On F2 88 85
  alone the estimate is clamped to 3, that lookup is made, and the decoder returns 00.
\<close>

theorem decode_estimate_4_no_lookup:
  "utf8_sequence_length 0x7F = 1 \<and> utf8_sequence_length 0x80 = 2 \<and>
   utf8_sequence_length 0xDF = 2 \<and> utf8_sequence_length 0xE0 = 3 \<and>
   utf8_sequence_length 0xEF = 3 \<and> utf8_sequence_length 0xF0 = 4 \<and>
   utf8_sequence_length 0xF2 = 4 \<and>
   clamp_seq_len [0xF2, 0x88, 0x85, 0x41] 0 4 = 4 \<and>
   decode_try init_tables [0xF2, 0x88, 0x85, 0x41] 0 4 = None \<and>
   decode_try init_tables [0xF2, 0x88, 0x85, 0x41] 0 3 = Some (3, 0x00) \<and>
   decode_data init_tables [0xF2, 0x88, 0x85, 0x41] = Inr \<lparr>data = [0x41], capacity = 4\<rparr> \<and>
   clamp_seq_len [0xF2, 0x88, 0x85] 0 4 = 3 \<and>
   decode_data init_tables [0xF2, 0x88, 0x85] = Inr \<lparr>data = [0x00], capacity = 3\<rparr>"
  by (simp add: utf8_sequence_length_def decode_data_def decode_loop.simps decode_try.simps
      clamp_seq_len_def buffer_init_def buffer_append_char_def buffer_append_def Let_def
      utf8_hash_def valid_examples decode_examples)

text \<open>
  C7 (formatter boundary integrity). Whatever the group size and the groups per line,
  when \<open>format_output\<close> returns for encoder output, its output is the sequence of every
  input byte, whole and in order, each followed by nothing, by a space, or by a space and
  a newline: no separator lies inside a sequence. It does return when both parameters are
  at least 1 and their product is within \<open>int\<close>.
\<close>

theorem formatter_boundary_integrity:
  "\<exists>enc. encode_data init_tables B = Inr enc \<and>
     (\<forall>out. format_output enc g n = Inr out \<longrightarrow>
        (\<exists>seps. length seps = length B \<and>
           (\<forall>s \<in> set seps. s = [] \<or> s = [0x20] \<or> s = [0x20, 0x0A]) \<and>
           data out = concat (map2 (\<lambda>b s. sequence_of init_tables b @ s) B seps))) \<and>
     (1 \<le> g \<and> 1 \<le> n \<and> g * n \<le> INT_MAX \<longrightarrow> (\<exists>out. format_output enc g n = Inr out))"
proof -
  let ?cap = "capacity (buffer_init (length B * 3))"
  let ?enc = "\<lparr>data = encode_bytes init_tables B, capacity = ?cap\<rparr>"
  have enc: "encode_data init_tables B = Inr ?enc"
    by (rule encode_data_ok [OF init_tables_ok])
  have shape: "\<exists>seps. length seps = length B \<and>
           (\<forall>s \<in> set seps. s = [] \<or> s = [0x20] \<or> s = [0x20, 0x0A]) \<and>
           data out = concat (map2 (\<lambda>b s. sequence_of init_tables b @ s) B seps)"
    if "format_output ?enc g n = Inr out" for out
    using format_output_Inr [OF init_tables_ok that]
      formatted_units_boundaries [of B init_tables "to_size_t g" "to_size_t n" 0]
    by simp
  have returns: "\<exists>out. format_output ?enc g n = Inr out"
    if "1 \<le> g \<and> 1 \<le> n \<and> g * n \<le> INT_MAX"
    using format_output_ok [OF init_tables_ok, of g n B ?cap] that by blast
  from enc shape returns show ?thesis by blast
qed

theorem formatter_boundary_integrity_witness:
  "(1 :: int) \<le> 1 \<and> (1 :: int) \<le> 2 \<and> (1 :: int) * 2 \<le> INT_MAX \<and>
   (\<exists>enc out seps. encode_data init_tables [0x00, 0x41, 0x80] = Inr enc \<and>
      format_output enc 1 2 = Inr out \<and>
      length seps = length [0x00, 0x41, 0x80 :: uint8_t] \<and>
      (\<forall>s \<in> set seps. s = [] \<or> s = [0x20] \<or> s = [0x20, 0x0A]) \<and>
      data out = concat (map2 (\<lambda>b s. sequence_of init_tables b @ s) [0x00, 0x41, 0x80] seps))"
proof -
  have h: "(1 :: int) \<le> 1 \<and> (1 :: int) \<le> 2 \<and> (1 :: int) * 2 \<le> INT_MAX"
    by (simp add: INT_MAX_def)
  from formatter_boundary_integrity [of "[0x00, 0x41, 0x80]" 1 2] h show ?thesis
    by blast
qed

text \<open>
  C2 (round trip with formatting). The group size 65536 with 65536 groups per line are
  two positive \<open>int\<close>s. The size estimate of \<open>format_output\<close> divides by
  \<open>group_size * groups_per_line\<close>, formed in \<open>int\<close> and not checked: the product wraps
  to 0, the division traps, and the encoding of the byte 41 is not formatted, so there is
  nothing to sanitize and decode.
\<close>

theorem format_output_product_overflow:
  "(1 :: int) \<le> 65536 \<and> (65536 :: int) \<le> INT_MAX \<and> int_mul 65536 65536 = 0 \<and>
   encode_data init_tables [0x41] = Inr \<lparr>data = [0x41], capacity = 3\<rparr> \<and>
   format_output \<lparr>data = [0x41], capacity = 3\<rparr> 65536 65536 = Inl DivisionByZero"
proof -
  have "encode_bytes init_tables [0x41] = [0x41]"
    by (simp add: encode_bytes_def sequence_of_examples)
  then have "encode_data init_tables [0x41] = Inr \<lparr>data = [0x41], capacity = 3\<rparr>"
    by (simp add: encode_data_ok [OF init_tables_ok] buffer_init_def)
  moreover have "format_output \<lparr>data = [0x41], capacity = 3\<rparr> 65536 65536 = Inl DivisionByZero"
    by (simp add: format_output_def div_size_t_def int_mul_def to_size_t_def)
  ultimately show ?thesis by (simp add: INT_MAX_def int_mul_def)
qed

end
